theory Spec2Isabelle
  imports Main "HOL-Library.Finite_Map" "HOL-Library.Word"
begin

section \<open>The key space of redisdb.go\<close>

text \<open>
  The embedding follows \<^verbatim>\<open>redisdb.go\<close> function by function.

  \<^item> A Go map is finite, so \<^verbatim>\<open>map[string]Item\<close> is a finite map; \<^verbatim>\<open>len(m) == 0\<close> is
    \<open>m = fmempty\<close>.
  \<^item> A pointer \<^verbatim>\<open>*string\<close> is a \<open>string option\<close>, \<open>None\<close> being \<^verbatim>\<open>nil\<close>; dereferencing
    \<^verbatim>\<open>nil\<close> panics. A value of the interface type \<^verbatim>\<open>Item\<close> is an option too, \<open>None\<close>
    being the nil interface; calling a method on it panics.
  \<^item> A panic does not roll the receiver back: every operation that writes returns the
    database it leaves behind, also when it panics.
  \<^item> \<^verbatim>\<open>time.Now()\<close> is an argument \<open>now\<close> of the functions that read the clock; an
    instant is an integer on the time line.
  \<^item> The read/write mutex is not modelled: the functions below are the bodies run under
    the lock, one call at a time.
  \<^item> \<^verbatim>\<open>OnDelete\<close> is implemented outside this file. A call of it is an observable event:
    the functions that can delete return the list of the calls they made, each with the
    receiver, the key and the database as it was at the moment of the call. The hook is
    taken to return and to leave the two maps of the database alone.
\<close>

subsection \<open>Data\<close>

type_synonym DatabaseId = "64 word"

type_synonym Time = int

text \<open>What the methods of an \<^verbatim>\<open>Item\<close> return; \<open>'v\<close> is the payload behind \<^verbatim>\<open>Value()\<close>.\<close>

record 'v ItemRec =
  Value :: 'v
  ValueType :: "64 word"
  ValueTypeFancy :: string
  Expiry :: Time
  Expires :: bool

type_synonym 'v Item = "'v ItemRec option"

type_synonym 'v Keys = "(string, 'v Item) fmap"

type_synonym RedisPtr = nat

type_synonym RedisDbPtr = nat

record 'v RedisDb =
  db_id :: DatabaseId
  keys :: "'v Keys"
  expiringKeys :: "'v Keys"
  redis :: RedisPtr

text \<open>
  Modelled from the spec: the struct \<^verbatim>\<open>Redis\<close> is declared outside \<^verbatim>\<open>redisdb.go\<close>; the
  file uses its field \<^verbatim>\<open>redisDbs\<close> (the registry, a mapping from database id to
  database) and its mutex. \<open>this\<close> is the address of the instance, \<open>heap\<close> holds the
  databases allocated so far, a pointer to a database being its index there.
\<close>

record 'v Redis =
  this :: RedisPtr
  redisDbs :: "(DatabaseId, RedisDbPtr) fmap"
  heap :: "'v RedisDb list"

datatype error = NilDereference

type_synonym 'a result = "error + 'a"

record 'v OnDeleteCall =
  receiver :: "'v ItemRec"
  key_arg :: string
  db_arg :: "'v RedisDb"

subsection \<open>The registry\<close>

definition NewRedisDb :: "DatabaseId \<Rightarrow> RedisPtr \<Rightarrow> 'v RedisDb" where
  "NewRedisDb ident r =
     \<lparr>db_id = ident, keys = fmempty, expiringKeys = fmempty, redis = r\<rparr>"

text \<open>The closure \<^verbatim>\<open>getDb\<close> of \<^verbatim>\<open>Redis.RedisDb\<close>; \<open>None\<close> is the nil pointer.\<close>

definition getDb :: "DatabaseId \<Rightarrow> 'v Redis \<Rightarrow> RedisDbPtr option" where
  "getDb dbId r = (case fmlookup (redisDbs r) dbId of Some db \<Rightarrow> Some db | None \<Rightarrow> None)"

text \<open>
  \<^verbatim>\<open>func (r *Redis) RedisDb(dbId DatabaseId) *RedisDb\<close>: the probe under the read lock,
  the second probe under the write lock, then the allocation of the new database and the
  read of the registry that is returned.
\<close>

definition Redis_RedisDb :: "DatabaseId \<Rightarrow> 'v Redis \<Rightarrow> RedisDbPtr option \<times> 'v Redis" where
  "Redis_RedisDb dbId r =
     (case getDb dbId r of
        Some db \<Rightarrow> (Some db, r)
      | None \<Rightarrow>
         (case getDb dbId r of
            Some db \<Rightarrow> (Some db, r)
          | None \<Rightarrow>
             (let p = length (heap r);
                  r' = r\<lparr>heap := heap r @ [NewRedisDb dbId (this r)],
                         redisDbs := fmupd dbId p (redisDbs r)\<rparr>
              in (fmlookup (redisDbs r') dbId, r'))))"

definition Redis_RedisDbs :: "'v Redis \<Rightarrow> (DatabaseId, RedisDbPtr) fmap" where
  "Redis_RedisDbs r = redisDbs r"

subsection \<open>Reading a database\<close>

definition Id :: "'v RedisDb \<Rightarrow> DatabaseId" where
  "Id db = db_id db"

definition IsEmpty :: "'v RedisDb \<Rightarrow> bool" where
  "IsEmpty db = (keys db = fmempty)"

definition IsEmptyExpire :: "'v RedisDb \<Rightarrow> bool" where
  "IsEmptyExpire db = (expiringKeys db = fmempty)"

definition Keys :: "'v RedisDb \<Rightarrow> 'v Keys" where
  "Keys db = keys db"

definition ExpiringKeys :: "'v RedisDb \<Rightarrow> 'v Keys" where
  "ExpiringKeys db = expiringKeys db"

text \<open>
  \<^verbatim>\<open>i, _ := db.keys[*key]\<close>: a key that is not in the map reads as the zero value of
  \<^verbatim>\<open>Item\<close>, the nil interface.
\<close>

definition get :: "string option \<Rightarrow> 'v RedisDb \<Rightarrow> 'v Item result" where
  "get key db =
     (case key of
        None \<Rightarrow> Inl NilDereference
      | Some k \<Rightarrow> (case fmlookup (keys db) k of None \<Rightarrow> Inr None | Some i \<Rightarrow> Inr i))"

definition Get :: "string option \<Rightarrow> 'v RedisDb \<Rightarrow> 'v Item result" where
  "Get key db = get key db"

definition exists :: "string option \<Rightarrow> 'v RedisDb \<Rightarrow> bool result" where
  "exists key db =
     (case key of
        None \<Rightarrow> Inl NilDereference
      | Some k \<Rightarrow> (case fmlookup (keys db) k of None \<Rightarrow> Inr False | Some i \<Rightarrow> Inr True))"

definition Exists :: "string option \<Rightarrow> 'v RedisDb \<Rightarrow> bool result" where
  "Exists key db = exists key db"

text \<open>\<^verbatim>\<open>func (db *RedisDb) Expires(key *string) bool\<close>, the spec's \<^verbatim>\<open>HasExpiry\<close>.\<close>

definition Expires_key :: "string option \<Rightarrow> 'v RedisDb \<Rightarrow> bool result" where
  "Expires_key key db =
     (case key of
        None \<Rightarrow> Inl NilDereference
      | Some k \<Rightarrow>
         (case fmlookup (expiringKeys db) k of None \<Rightarrow> Inr False | Some i \<Rightarrow> Inr True))"

subsection \<open>The expiry checks\<close>

text \<open>\<^verbatim>\<open>time.Now().After(expireAt)\<close>: the instant \<open>now\<close> is after \<open>expireAt\<close>.\<close>

definition Expired :: "Time \<Rightarrow> Time \<Rightarrow> bool" where
  "Expired now expireAt = (now > expireAt)"

definition ItemExpired :: "Time \<Rightarrow> 'v Item \<Rightarrow> bool result" where
  "ItemExpired now i =
     (case i of
        None \<Rightarrow> Inl NilDereference
      | Some it \<Rightarrow> Inr (Expires it \<and> Expired now (Expiry it)))"

subsection \<open>Writing a database\<close>

text \<open>
  \<^verbatim>\<open>Set\<close> stores the item in \<^verbatim>\<open>keys\<close> before it calls \<^verbatim>\<open>i.Expires()\<close>, so a nil item is
  in the map when that call panics.
\<close>

definition Set :: "string option \<Rightarrow> 'v Item \<Rightarrow> 'v RedisDb \<Rightarrow> unit result \<times> 'v RedisDb" where
  "Set key i db =
     (case key of
        None \<Rightarrow> (Inl NilDereference, db)
      | Some k \<Rightarrow>
         (let db1 = db\<lparr>keys := fmupd k i (keys db)\<rparr> in
          case i of
            None \<Rightarrow> (Inl NilDereference, db1)
          | Some it \<Rightarrow>
             if Expires it
             then (Inr (), db1\<lparr>expiringKeys := fmupd k i (expiringKeys db1)\<rparr>)
             else (Inr (), db1)))"

text \<open>
  The unexported \<^verbatim>\<open>delete\<close>: nothing happens when \<^verbatim>\<open>get\<close> returns nil; otherwise the hook
  is called on the database as it is, and then the key leaves both maps.
\<close>

definition delete ::
  "string option \<Rightarrow> 'v RedisDb \<Rightarrow> bool result \<times> 'v RedisDb \<times> 'v OnDeleteCall list" where
  "delete key db =
     (case get key db of
        Inl e \<Rightarrow> (Inl e, db, [])
      | Inr None \<Rightarrow> (Inr False, db, [])
      | Inr (Some it) \<Rightarrow>
         (case key of
            None \<Rightarrow> (Inl NilDereference, db, [])
          | Some k \<Rightarrow>
             (Inr True,
              db\<lparr>keys := fmdrop k (keys db), expiringKeys := fmdrop k (expiringKeys db)\<rparr>,
              [\<lparr>receiver = it, key_arg = k, db_arg = db\<rparr>])))"

text \<open>
  The loop of \<^verbatim>\<open>Delete\<close> over the remaining arguments, with the counter \<^verbatim>\<open>c\<close> (an
  \<^verbatim>\<open>int64\<close>) and the database so far.
\<close>

fun Delete_loop ::
  "string option list \<Rightarrow> 64 word \<Rightarrow> 'v RedisDb \<Rightarrow>
     64 word result \<times> 'v RedisDb \<times> 'v OnDeleteCall list" where
  "Delete_loop [] c db = (Inr c, db, [])"
| "Delete_loop (k # ks) c db =
     (if k \<noteq> None
      then (case delete k db of
              (Inl e, db', calls) \<Rightarrow> (Inl e, db', calls)
            | (Inr b, db', calls) \<Rightarrow>
               (case Delete_loop ks (if b then c + 1 else c) db' of
                  (r, db'', calls') \<Rightarrow> (r, db'', calls @ calls')))
      else Delete_loop ks c db)"

definition Delete ::
  "string option list \<Rightarrow> 'v RedisDb \<Rightarrow> 64 word result \<times> 'v RedisDb \<times> 'v OnDeleteCall list" where
  "Delete ks db = Delete_loop ks 0 db"

definition GetOrExpired ::
  "Time \<Rightarrow> string option \<Rightarrow> bool \<Rightarrow> 'v RedisDb \<Rightarrow>
     'v Item result \<times> 'v RedisDb \<times> 'v OnDeleteCall list" where
  "GetOrExpired now key deleteIfExpired db =
     (case key of
        None \<Rightarrow> (Inl NilDereference, db, [])
      | Some k \<Rightarrow>
         (case fmlookup (keys db) k of
            None \<Rightarrow> (Inr None, db, [])
          | Some i \<Rightarrow>
             (case ItemExpired now i of
                Inl e \<Rightarrow> (Inl e, db, [])
              | Inr expired \<Rightarrow>
                 if expired
                 then (if deleteIfExpired
                       then (case delete key db of
                               (Inl e, db', calls) \<Rightarrow> (Inl e, db', calls)
                             | (Inr b, db', calls) \<Rightarrow> (Inr None, db', calls))
                       else (Inr None, db, []))
                 else (Inr i, db, []))))"

subsection \<open>Sequences of public operations\<close>

text \<open>
  A call of one of the public methods of a database, with its arguments (and, for
  \<^verbatim>\<open>GetOrExpired\<close>, the instant at which it reads the clock). \<open>exec\<close> is the database the
  call leaves behind, whether it returns or panics; \<open>run\<close> makes the calls of a list in
  order.
\<close>

datatype 'v Op =
    OpSet "string option" "'v Item"
  | OpGet "string option"
  | OpGetOrExpired Time "string option" bool
  | OpDelete "string option list"
  | OpExists "string option"
  | OpExpires "string option"
  | OpKeys
  | OpExpiringKeys
  | OpIsEmpty
  | OpIsEmptyExpire

fun exec :: "'v Op \<Rightarrow> 'v RedisDb \<Rightarrow> 'v RedisDb" where
  "exec (OpSet key i) db = snd (Set key i db)"
| "exec (OpGet key) db = db"
| "exec (OpGetOrExpired now key deleteIfExpired) db =
     fst (snd (GetOrExpired now key deleteIfExpired db))"
| "exec (OpDelete ks) db = fst (snd (Delete ks db))"
| "exec (OpExists key) db = db"
| "exec (OpExpires key) db = db"
| "exec OpKeys db = db"
| "exec OpExpiringKeys db = db"
| "exec OpIsEmpty db = db"
| "exec OpIsEmptyExpire db = db"

fun run :: "'v Op list \<Rightarrow> 'v RedisDb \<Rightarrow> 'v RedisDb" where
  "run [] db = db"
| "run (op # ops) db = run ops (exec op db)"

text \<open>The two calls that can take the key \<open>k\<close> out of the database, and the one that
  can replace its item.\<close>

fun removes :: "string \<Rightarrow> 'v Op \<Rightarrow> bool" where
  "removes k (OpDelete ks) = (Some k \<in> set ks)"
| "removes k (OpGetOrExpired now key deleteIfExpired) = (deleteIfExpired \<and> key = Some k)"
| "removes k _ = False"

fun overwrites :: "string \<Rightarrow> 'v Op \<Rightarrow> bool" where
  "overwrites k (OpSet key i) = (key = Some k)"
| "overwrites k _ = False"

subsection \<open>Notions used in the statements\<close>

text \<open>
  \<open>held k db\<close>: the key map has a non-nil item at \<open>k\<close>, which is the test
  \<^verbatim>\<open>i == nil\<close> of \<^verbatim>\<open>delete\<close> failing. \<open>remove_key k db\<close> is the database after the two
  \<^verbatim>\<open>delete(...)\<close> statements of \<^verbatim>\<open>delete\<close>.
\<close>

definition held :: "string \<Rightarrow> 'v RedisDb \<Rightarrow> bool" where
  "held k db = (case fmlookup (keys db) k of Some (Some it) \<Rightarrow> True | _ \<Rightarrow> False)"

definition remove_key :: "string \<Rightarrow> 'v RedisDb \<Rightarrow> 'v RedisDb" where
  "remove_key k db =
     db\<lparr>keys := fmdrop k (keys db), expiringKeys := fmdrop k (expiringKeys db)\<rparr>"

text \<open>The invariant of the data model: the expiring-key index is keyed inside the key map.\<close>

definition subset_inv :: "'v RedisDb \<Rightarrow> bool" where
  "subset_inv db = (fmdom (expiringKeys db) |\<subseteq>| fmdom (keys db))"

text \<open>No key holds the nil interface (which only a panicking \<^verbatim>\<open>Set(k, nil)\<close> stores).\<close>

definition no_nil_items :: "'v RedisDb \<Rightarrow> bool" where
  "no_nil_items db = (\<forall>k |\<in>| fmdom (keys db). fmlookup (keys db) k \<noteq> Some None)"

text \<open>
  The count as the spec words it: the supplied keys that existed in the key map before
  the call, one for each argument.
\<close>

definition supplied_existing :: "string option list \<Rightarrow> 'v RedisDb \<Rightarrow> nat" where
  "supplied_existing ks db = length (filter (\<lambda>key. Exists key db = Inr True) ks)"

text \<open>The count the loop makes: the distinct non-nil arguments that hold an item.\<close>

definition counted :: "string option list \<Rightarrow> 'v RedisDb \<Rightarrow> nat" where
  "counted ks db =
     length (remdups (filter (\<lambda>k. held k db) (List.map_filter (\<lambda>key. key) ks)))"

text \<open>A sequence of lookups in the registry, each creating its database when needed.\<close>

fun lookups :: "DatabaseId list \<Rightarrow> 'v Redis \<Rightarrow> 'v Redis" where
  "lookups [] r = r"
| "lookups (i # ids) r = lookups ids (snd (Redis_RedisDb i r))"

text \<open>Every pointer in the registry points into the heap.\<close>

definition registry_ok :: "'v Redis \<Rightarrow> bool" where
  "registry_ok r =
     (\<forall>i |\<in>| fmdom (redisDbs r).
        case fmlookup (redisDbs r) i of Some p \<Rightarrow> p < length (heap r) | None \<Rightarrow> False)"

text \<open>Sample items and databases for the concrete checks below.\<close>

definition plain_item :: "nat ItemRec" where
  "plain_item =
     \<lparr>Value = 1, ValueType = 0, ValueTypeFancy = ''string'', Expiry = 0, Expires = False\<rparr>"

definition timed_item :: "nat ItemRec" where
  "timed_item =
     \<lparr>Value = 2, ValueType = 0, ValueTypeFancy = ''string'', Expiry = 100, Expires = True\<rparr>"

definition fresh_db :: "nat RedisDb" where
  "fresh_db = NewRedisDb 0 0"

definition db_plain :: "nat RedisDb" where
  "db_plain = \<lparr>db_id = 0, keys = fmupd ''a'' (Some plain_item) fmempty,
               expiringKeys = fmempty, redis = 0\<rparr>"

definition db_timed :: "nat RedisDb" where
  "db_timed = \<lparr>db_id = 0, keys = fmupd ''b'' (Some timed_item) fmempty,
               expiringKeys = fmupd ''b'' (Some timed_item) fmempty, redis = 0\<rparr>"

definition sample_ops :: "nat Op list" where
  "sample_ops =
     [OpGetOrExpired 200 (Some ''b'') False, OpGet (Some ''b''),
      OpSet (Some ''a'') (Some plain_item), OpDelete [Some ''a'', None],
      OpGetOrExpired 300 (Some ''a'') True, OpKeys, OpIsEmpty]"

definition fresh_redis :: "nat Redis" where
  "fresh_redis = \<lparr>this = 0, redisDbs = fmempty, heap = []\<rparr>"

section \<open>Properties\<close>

subsection \<open>The unexported delete\<close>

lemma delete_nil: "delete None db = (Inl NilDereference, db, [])"
  by (simp add: delete_def get_def)

lemma held_iff: "held k db \<longleftrightarrow> (\<exists>it. fmlookup (keys db) k = Some (Some it))"
  by (simp add: held_def split: option.splits)

lemma delete_held:
  "fmlookup (keys db) k = Some (Some it) \<Longrightarrow>
   delete (Some k) db =
     (Inr True, remove_key k db, [\<lparr>receiver = it, key_arg = k, db_arg = db\<rparr>])"
  by (simp add: delete_def get_def remove_key_def)

lemma delete_not_held: "\<not> held k db \<Longrightarrow> delete (Some k) db = (Inr False, db, [])"
  by (simp add: delete_def get_def held_def split: option.splits)

lemma delete_cases:
  "delete (Some k) db = (Inr False, db, []) \<and> \<not> held k db \<or>
   (\<exists>it. fmlookup (keys db) k = Some (Some it) \<and>
      delete (Some k) db =
        (Inr True, remove_key k db, [\<lparr>receiver = it, key_arg = k, db_arg = db\<rparr>]))"
  using delete_held delete_not_held held_iff by blast

lemma held_remove_key: "held k' (remove_key k db) \<longleftrightarrow> k' \<noteq> k \<and> held k' db"
  by (auto simp: held_def remove_key_def split: option.splits)

lemma keys_remove_key: "fmlookup (keys (remove_key k db)) k' = (if k' = k then None else fmlookup (keys db) k')"
  by (simp add: remove_key_def)

lemma expiringKeys_remove_key:
  "fmlookup (expiringKeys (remove_key k db)) k' =
     (if k' = k then None else fmlookup (expiringKeys db) k')"
  by (simp add: remove_key_def)

subsection \<open>What GetOrExpired does to the database\<close>

lemma GetOrExpired_db_cases:
  "snd (GetOrExpired now key b db) = (db, []) \<or>
   (b \<and> (\<exists>k it. key = Some k \<and> fmlookup (keys db) k = Some (Some it) \<and>
       Expires it \<and> Expiry it < now \<and>
       snd (GetOrExpired now key b db) =
         (remove_key k db, [\<lparr>receiver = it, key_arg = k, db_arg = db\<rparr>])))"
proof (cases key)
  case None
  then show ?thesis by (simp add: GetOrExpired_def)
next
  case (Some k)
  show ?thesis
  proof (cases "fmlookup (keys db) k")
    case None
    then show ?thesis using Some by (simp add: GetOrExpired_def)
  next
    case outer: (Some i)
    show ?thesis
    proof (cases i)
      case None
      then show ?thesis using Some outer by (simp add: GetOrExpired_def ItemExpired_def)
    next
      case inner: (Some it)
      have look: "fmlookup (keys db) k = Some (Some it)" using outer inner by simp
      show ?thesis
        using Some look delete_held [OF look]
        by (cases "Expires it \<and> Expiry it < now"; cases b)
           (simp_all add: GetOrExpired_def ItemExpired_def Expired_def)
    qed
  qed
qed

subsection \<open>The count of Delete\<close>

lemma finite_supplied: "finite {k. Some k \<in> set ks \<and> P k}"
proof -
  have "{k. Some k \<in> set ks \<and> P k} \<subseteq> Some -` set ks" by auto
  moreover have "finite (Some -` set ks)" by (rule finite_vimageI) simp_all
  ultimately show ?thesis by (rule finite_subset)
qed

lemma Delete_loop_count:
  "fst (Delete_loop ks c db) = Inr (c + of_nat (card {k. Some k \<in> set ks \<and> held k db}))"
proof (induction ks arbitrary: c db)
  case Nil
  then show ?case by simp
next
  case (Cons a ks)
  show ?case
  proof (cases a)
    case None
    then show ?thesis using Cons.IH [of c db] by simp
  next
    case (Some k)
    let ?S = "{k'. Some k' \<in> set ks \<and> held k' db}"
    have fin: "finite ?S" by (rule finite_supplied)
    show ?thesis
    proof (cases "held k db")
      case True
      then obtain it where it: "fmlookup (keys db) k = Some (Some it)"
        by (auto simp: held_iff)
      have S': "{k'. Some k' \<in> set ks \<and> held k' (remove_key k db)} = ?S - {k}"
        by (auto simp: held_remove_key)
      have T: "{k'. Some k' \<in> set (a # ks) \<and> held k' db} = insert k ?S"
        using Some True by auto
      have crd: "card (insert k ?S) = Suc (card (?S - {k}))"
        using fin by (simp add: card.insert_remove)
      have "fst (Delete_loop (a # ks) c db) = fst (Delete_loop ks (c + 1) (remove_key k db))"
        using Some delete_held [OF it] by (simp add: case_prod_beta)
      also have "\<dots> = Inr (c + 1 + of_nat (card (?S - {k})))"
        using Cons.IH [of "c + 1" "remove_key k db"] by (simp only: S')
      also have "\<dots> = Inr (c + of_nat (card (insert k ?S)))"
        by (simp only: crd) simp
      finally show ?thesis by (simp only: T)
    next
      case False
      have T: "{k'. Some k' \<in> set (a # ks) \<and> held k' db} = ?S"
        using Some False by auto
      have "fst (Delete_loop (a # ks) c db) = fst (Delete_loop ks c db)"
        using Some delete_not_held [OF False] by (simp add: case_prod_beta)
      then show ?thesis
        using Cons.IH [of c db] by (simp only: T)
    qed
  qed
qed

lemma counted_card: "counted ks db = card {k. Some k \<in> set ks \<and> held k db}"
proof -
  have "set (filter (\<lambda>k. held k db) (List.map_filter (\<lambda>key. key) ks)) =
        {k. Some k \<in> set ks \<and> held k db}"
    by (force simp: List.map_filter_def)
  then show ?thesis
    by (simp add: counted_def length_remdups_card_conv)
qed

lemma counted_le_length: "counted ks db \<le> length ks"
proof -
  have "counted ks db \<le> length (filter (\<lambda>k. held k db) (List.map_filter (\<lambda>key. key) ks))"
    unfolding counted_def by (rule length_remdups_leq)
  also have "\<dots> \<le> length (List.map_filter (\<lambda>key. key) ks)"
    by (rule length_filter_le)
  also have "\<dots> \<le> length ks"
    by (simp add: List.map_filter_def)
  finally show ?thesis .
qed

lemma held_iff_Exists: "no_nil_items db \<Longrightarrow> held k db \<longleftrightarrow> Exists (Some k) db = Inr True"
proof -
  assume nn: "no_nil_items db"
  have "fmlookup (keys db) k \<noteq> Some None"
  proof
    assume l: "fmlookup (keys db) k = Some None"
    then have "k |\<in>| fmdom (keys db)" by (rule fmdomI)
    with nn l show False by (auto simp: no_nil_items_def)
  qed
  then show ?thesis
    by (cases "fmlookup (keys db) k")
       (auto simp: held_def Exists_def exists_def split: option.splits)
qed

subsection \<open>The invariant\<close>

lemma subset_inv_Set: "subset_inv db \<Longrightarrow> subset_inv (snd (Set key i db))"
  by (auto simp: Set_def Let_def subset_inv_def split: option.splits)

lemma subset_inv_remove_key: "subset_inv db \<Longrightarrow> subset_inv (remove_key k db)"
  by (auto simp: subset_inv_def remove_key_def)

lemma subset_inv_Delete_loop:
  "subset_inv db \<Longrightarrow> subset_inv (fst (snd (Delete_loop ks c db)))"
proof (induction ks arbitrary: c db)
  case Nil
  then show ?case by simp
next
  case (Cons a ks)
  show ?case
  proof (cases a)
    case None
    then show ?thesis using Cons by simp
  next
    case (Some k)
    from delete_cases [of k db] show ?thesis
    proof (elim disjE conjE exE)
      assume "delete (Some k) db = (Inr False, db, [])"
      then show ?thesis using Some Cons.IH [OF Cons.prems]
        by (simp add: case_prod_beta)
    next
      fix it
      assume "delete (Some k) db =
        (Inr True, remove_key k db, [\<lparr>receiver = it, key_arg = k, db_arg = db\<rparr>])"
      moreover have "subset_inv (fst (snd (Delete_loop ks (c + 1) (remove_key k db))))"
        by (rule Cons.IH) (rule subset_inv_remove_key [OF Cons.prems])
      ultimately show ?thesis using Some
        by (simp add: case_prod_beta)
    qed
  qed
qed

lemma subset_inv_GetOrExpired:
  "subset_inv db \<Longrightarrow> subset_inv (fst (snd (GetOrExpired now key b db)))"
  using GetOrExpired_db_cases [of now key b db] subset_inv_remove_key [of db]
  by (metis fst_conv)

lemma subset_inv_exec: "subset_inv db \<Longrightarrow> subset_inv (exec op db)"
  by (cases op)
     (simp_all add: subset_inv_Set subset_inv_GetOrExpired subset_inv_Delete_loop Delete_def)

lemma subset_inv_run: "subset_inv db \<Longrightarrow> subset_inv (run ops db)"
  by (induction ops arbitrary: db) (simp_all add: subset_inv_exec)

lemma subset_inv_New: "subset_inv (NewRedisDb ident r)"
  by (simp add: subset_inv_def NewRedisDb_def)

subsection \<open>The maps and the hook calls after Delete\<close>

lemma Delete_loop_maps:
  "fmlookup (keys (fst (snd (Delete_loop ks c db)))) k =
     (if Some k \<in> set ks \<and> held k db then None else fmlookup (keys db) k) \<and>
   fmlookup (expiringKeys (fst (snd (Delete_loop ks c db)))) k =
     (if Some k \<in> set ks \<and> held k db then None else fmlookup (expiringKeys db) k)"
proof (induction ks arbitrary: c db)
  case Nil
  then show ?case by simp
next
  case (Cons a ks)
  show ?case
  proof (cases a)
    case None
    then show ?thesis using Cons.IH [of c db] by simp
  next
    case (Some k')
    show ?thesis
    proof (cases "held k' db")
      case True
      then obtain it where it: "fmlookup (keys db) k' = Some (Some it)"
        by (auto simp: held_iff)
      have step: "fst (snd (Delete_loop (a # ks) c db)) =
                  fst (snd (Delete_loop ks (c + 1) (remove_key k' db)))"
        using Some delete_held [OF it] by (simp add: case_prod_beta)
      show ?thesis
        unfolding step using Cons.IH [of "c + 1" "remove_key k' db"] Some True
        by (auto simp: held_remove_key keys_remove_key expiringKeys_remove_key)
    next
      case False
      have step: "fst (snd (Delete_loop (a # ks) c db)) = fst (snd (Delete_loop ks c db))"
        using Some delete_not_held [OF False] by (simp add: case_prod_beta)
      show ?thesis
        unfolding step using Cons.IH [of c db] Some False by auto
    qed
  qed
qed

lemma Delete_loop_no_call:
  "\<not> held k db \<Longrightarrow> filter (\<lambda>c. key_arg c = k) (snd (snd (Delete_loop ks c db))) = []"
proof (induction ks arbitrary: c db)
  case Nil
  then show ?case by simp
next
  case (Cons a ks)
  show ?case
  proof (cases a)
    case None
    then show ?thesis using Cons.IH [OF Cons.prems] by simp
  next
    case (Some k')
    from delete_cases [of k' db] show ?thesis
    proof (elim disjE conjE exE)
      assume "delete (Some k') db = (Inr False, db, [])"
      then show ?thesis using Some Cons.IH [OF Cons.prems]
        by (simp add: case_prod_beta)
    next
      fix it
      assume look: "fmlookup (keys db) k' = Some (Some it)"
        and del: "delete (Some k') db =
          (Inr True, remove_key k' db, [\<lparr>receiver = it, key_arg = k', db_arg = db\<rparr>])"
      have ne: "k' \<noteq> k" using look Cons.prems by (auto simp: held_iff)
      have "\<not> held k (remove_key k' db)" using Cons.prems by (simp add: held_remove_key)
      then have "filter (\<lambda>c. key_arg c = k)
                   (snd (snd (Delete_loop ks (c + 1) (remove_key k' db)))) = []"
        by (rule Cons.IH)
      then show ?thesis using Some del ne
        by (simp add: case_prod_beta)
    qed
  qed
qed

lemma Delete_loop_one_call:
  "fmlookup (keys db) k = Some (Some v) \<Longrightarrow> Some k \<in> set ks \<Longrightarrow>
   \<exists>d. filter (\<lambda>c. key_arg c = k) (snd (snd (Delete_loop ks c db))) =
          [\<lparr>receiver = v, key_arg = k, db_arg = d\<rparr>] \<and>
       db_id d = db_id db \<and>
       fmlookup (keys d) k = Some (Some v) \<and>
       fmlookup (expiringKeys d) k = fmlookup (expiringKeys db) k"
proof (induction ks arbitrary: c db)
  case Nil
  then show ?case by simp
next
  case (Cons a ks)
  show ?case
  proof (cases a)
    case None
    then show ?thesis using Cons.IH [of db c] Cons.prems by simp
  next
    case (Some k')
    show ?thesis
    proof (cases "k' = k")
      case True
      have del: "delete (Some k) db =
          (Inr True, remove_key k db, [\<lparr>receiver = v, key_arg = k, db_arg = db\<rparr>])"
        by (rule delete_held) (rule Cons.prems)
      have "\<not> held k (remove_key k db)" by (simp add: held_remove_key)
      then have "filter (\<lambda>c. key_arg c = k)
                   (snd (snd (Delete_loop ks (c + 1) (remove_key k db)))) = []"
        by (rule Delete_loop_no_call)
      then have "filter (\<lambda>c. key_arg c = k) (snd (snd (Delete_loop (a # ks) c db))) =
                 [\<lparr>receiver = v, key_arg = k, db_arg = db\<rparr>]"
        using Some True del by (simp add: case_prod_beta)
      then show ?thesis using Cons.prems(1) by blast
    next
      case False
      then have mem: "Some k \<in> set ks" using Cons.prems(2) Some by simp
      from delete_cases [of k' db] show ?thesis
      proof (elim disjE conjE exE)
        assume "delete (Some k') db = (Inr False, db, [])"
        then have "snd (snd (Delete_loop (a # ks) c db)) = snd (snd (Delete_loop ks c db))"
          using Some by (simp add: case_prod_beta)
        then show ?thesis using Cons.IH [OF Cons.prems(1) mem, of c] by simp
      next
        fix it
        assume del: "delete (Some k') db =
          (Inr True, remove_key k' db, [\<lparr>receiver = it, key_arg = k', db_arg = db\<rparr>])"
        have look': "fmlookup (keys (remove_key k' db)) k = Some (Some v)"
          using False Cons.prems(1) by (simp add: keys_remove_key)
        have flt: "filter (\<lambda>c. key_arg c = k) (snd (snd (Delete_loop (a # ks) c db))) =
              filter (\<lambda>c. key_arg c = k)
                (snd (snd (Delete_loop ks (c + 1) (remove_key k' db))))"
          using Some del False by (simp add: case_prod_beta)
        from Cons.IH [OF look' mem, of "c + 1"] obtain d where
          d: "filter (\<lambda>c. key_arg c = k)
                (snd (snd (Delete_loop ks (c + 1) (remove_key k' db)))) =
              [\<lparr>receiver = v, key_arg = k, db_arg = d\<rparr>]"
             "db_id d = db_id (remove_key k' db)"
             "fmlookup (keys d) k = Some (Some v)"
             "fmlookup (expiringKeys d) k = fmlookup (expiringKeys (remove_key k' db)) k"
          by blast
        have "db_id d = db_id db" using d(2) by (simp add: remove_key_def)
        moreover have "fmlookup (expiringKeys d) k = fmlookup (expiringKeys db) k"
          using d(4) False by (simp add: expiringKeys_remove_key)
        ultimately show ?thesis using flt d(1) d(3) by auto
      qed
    qed
  qed
qed

subsection \<open>Keys that an operation does not touch\<close>

lemma exec_keeps_key:
  assumes "\<not> removes k op"
  shows "(fmlookup (keys db) k \<noteq> None \<longrightarrow> fmlookup (keys (exec op db)) k \<noteq> None) \<and>
         (\<not> overwrites k op \<longrightarrow> fmlookup (keys (exec op db)) k = fmlookup (keys db) k)"
proof (cases op)
  case (OpSet key i)
  then show ?thesis
    by (cases key; cases i) (simp_all add: Set_def Let_def)
next
  case (OpGetOrExpired now key b)
  from GetOrExpired_db_cases [of now key b db]
  have "fmlookup (keys (fst (snd (GetOrExpired now key b db)))) k = fmlookup (keys db) k"
  proof (elim disjE conjE exE)
    assume "snd (GetOrExpired now key b db) = (db, [])"
    then show ?thesis by simp
  next
    fix k' it
    assume b and "key = Some k'"
      and "snd (GetOrExpired now key b db) =
             (remove_key k' db, [\<lparr>receiver = it, key_arg = k', db_arg = db\<rparr>])"
    moreover from this assms OpGetOrExpired have "k' \<noteq> k" by auto
    ultimately show ?thesis by (simp add: keys_remove_key)
  qed
  then show ?thesis using OpGetOrExpired by simp
next
  case (OpDelete ks)
  then have "Some k \<notin> set ks" using assms by simp
  then have "fmlookup (keys (fst (snd (Delete ks db)))) k = fmlookup (keys db) k"
    using Delete_loop_maps [of ks 0 db k] by (simp add: Delete_def)
  then show ?thesis using OpDelete by simp
qed simp_all

lemma run_keeps_key:
  "\<forall>op \<in> set ops. \<not> removes k op \<Longrightarrow> fmlookup (keys db) k \<noteq> None \<Longrightarrow>
   fmlookup (keys (run ops db)) k \<noteq> None"
proof (induction ops arbitrary: db)
  case Nil
  then show ?case by simp
next
  case (Cons op ops)
  have "fmlookup (keys (exec op db)) k \<noteq> None"
    using exec_keeps_key [of k op db] Cons.prems by simp
  then show ?case using Cons.IH [of "exec op db"] Cons.prems(1) by simp
qed

lemma run_keeps_item:
  "\<forall>op \<in> set ops. \<not> removes k op \<and> \<not> overwrites k op \<Longrightarrow>
   fmlookup (keys (run ops db)) k = fmlookup (keys db) k"
proof (induction ops arbitrary: db)
  case Nil
  then show ?case by simp
next
  case (Cons op ops)
  have "fmlookup (keys (exec op db)) k = fmlookup (keys db) k"
    using exec_keeps_key [of k op db] Cons.prems by simp
  then show ?case using Cons.IH [of "exec op db"] Cons.prems by simp
qed

subsection \<open>The registry\<close>

lemma Redis_RedisDb_existing:
  "fmlookup (redisDbs r) i = Some p \<Longrightarrow> Redis_RedisDb i r = (Some p, r)"
  by (simp add: Redis_RedisDb_def getDb_def)

lemma Redis_RedisDb_new:
  "fmlookup (redisDbs r) i = None \<Longrightarrow>
   Redis_RedisDb i r =
     (Some (length (heap r)),
      r\<lparr>heap := heap r @ [NewRedisDb i (this r)],
        redisDbs := fmupd i (length (heap r)) (redisDbs r)\<rparr>)"
  by (simp add: Redis_RedisDb_def getDb_def Let_def)

lemma Redis_RedisDb_keeps_entry:
  "fmlookup (redisDbs r) i = Some p \<Longrightarrow>
   fmlookup (redisDbs (snd (Redis_RedisDb j r))) i = Some p"
  by (cases "fmlookup (redisDbs r) j")
     (auto simp add: Redis_RedisDb_new Redis_RedisDb_existing)

lemma lookups_keeps_entry:
  "fmlookup (redisDbs r) i = Some p \<Longrightarrow> fmlookup (redisDbs (lookups ids r)) i = Some p"
  by (induction ids arbitrary: r) (simp_all add: Redis_RedisDb_keeps_entry)

lemma registry_ok_lookup:
  "registry_ok r \<Longrightarrow> fmlookup (redisDbs r) i = Some p \<Longrightarrow> p < length (heap r)"
proof -
  assume ok: "registry_ok r" and l: "fmlookup (redisDbs r) i = Some p"
  from l have "i |\<in>| fmdom (redisDbs r)" by (rule fmdomI)
  with ok l show ?thesis by (auto simp: registry_ok_def)
qed

lemma registry_ok_Redis_RedisDb:
  assumes "registry_ok r"
  shows "registry_ok (snd (Redis_RedisDb j r))"
proof (cases "fmlookup (redisDbs r) j")
  case None
  have "\<And>i p. fmlookup (redisDbs r) i = Some p \<Longrightarrow> p < Suc (length (heap r))"
    using registry_ok_lookup [OF assms] by (simp add: less_Suc_eq)
  then show ?thesis
    using None
    by (auto simp add: Redis_RedisDb_new registry_ok_def fmlookup_dom_iff)
next
  case (Some p)
  then show ?thesis using assms by (simp add: Redis_RedisDb_existing)
qed

subsection \<open>Databases without nil items\<close>

lemma no_nil_items_lookup: "no_nil_items db \<longleftrightarrow> (\<forall>k. fmlookup (keys db) k \<noteq> Some None)"
  by (auto simp add: no_nil_items_def fmlookup_dom_iff)

lemma no_nil_items_remove_key: "no_nil_items db \<Longrightarrow> no_nil_items (remove_key k db)"
  by (simp add: no_nil_items_lookup keys_remove_key)

lemma no_nil_items_exec:
  assumes "no_nil_items db" and "\<forall>k. op \<noteq> OpSet (Some k) None"
  shows "no_nil_items (exec op db)"
proof (cases op)
  case (OpSet key i)
  then show ?thesis using assms
    by (cases key; cases i) (auto simp add: no_nil_items_lookup Set_def Let_def)
next
  case (OpGetOrExpired now key b)
  have "no_nil_items (fst (snd (GetOrExpired now key b db)))"
    using GetOrExpired_db_cases [of now key b db] no_nil_items_remove_key [OF assms(1)] assms(1)
    by (metis fst_conv)
  then show ?thesis using OpGetOrExpired by simp
next
  case (OpDelete ks)
  have "\<forall>k. fmlookup (keys (fst (snd (Delete ks db)))) k \<noteq> Some None"
    using Delete_loop_maps [of ks 0 db] assms(1)
    by (simp add: Delete_def no_nil_items_lookup)
  then show ?thesis using OpDelete by (simp add: no_nil_items_lookup)
qed (use assms in simp_all)

section \<open>The claims\<close>

subsection \<open>Set followed by a read\<close>

text \<open>
  C6. For every key \<open>k\<close>, every item \<open>v\<close> and every database, \<^verbatim>\<open>Set(k, v)\<close> returns, and
  in the database it leaves \<^verbatim>\<open>Get(k)\<close> returns exactly \<open>v\<close> and \<^verbatim>\<open>Exists(k)\<close> returns
  true, whatever the database held before and whatever the expiry fields of \<open>v\<close> are.
\<close>

theorem Set_then_Get_and_Exists:
  "fst (Set (Some k) (Some v) db) = Inr () \<and>
   Get (Some k) (snd (Set (Some k) (Some v) db)) = Inr (Some v) \<and>
   Exists (Some k) (snd (Set (Some k) (Some v) db)) = Inr True"
  by (simp add: Set_def Get_def get_def Exists_def exists_def Let_def)

theorem Set_then_Get_and_Exists_witness:
  "Get (Some ''b'') (snd (Set (Some ''b'') (Some plain_item) db_timed)) = Inr (Some plain_item) \<and>
   Exists (Some ''b'') (snd (Set (Some ''b'') (Some plain_item) db_timed)) = Inr True"
  using Set_then_Get_and_Exists [of "''b''" plain_item db_timed] by simp

text \<open>
  C1, at the input where it fails. The key \<^verbatim>\<open>k\<close> of a fresh database is set to an item
  with an expiry and then to an item without one: \<^verbatim>\<open>Set\<close> has no branch that takes the
  key out of \<^verbatim>\<open>expiringKeys\<close>, so \<^verbatim>\<open>Expires(k)\<close> (the spec's \<^verbatim>\<open>HasExpiry\<close>) still
  answers true, and the index still holds the item that was replaced.
\<close>

theorem Set_plain_over_timed_keeps_index:
  "Expires plain_item = False \<and>
   Get (Some ''k'')
     (snd (Set (Some ''k'') (Some plain_item) (snd (Set (Some ''k'') (Some timed_item) fresh_db))))
     = Inr (Some plain_item) \<and>
   Expires_key (Some ''k'')
     (snd (Set (Some ''k'') (Some plain_item) (snd (Set (Some ''k'') (Some timed_item) fresh_db))))
     = Inr True \<and>
   fmlookup (ExpiringKeys
     (snd (Set (Some ''k'') (Some plain_item) (snd (Set (Some ''k'') (Some timed_item) fresh_db)))))
     ''k'' = Some (Some timed_item)"
  by (simp add: Set_def Get_def get_def Expires_key_def ExpiringKeys_def fresh_db_def
      NewRedisDb_def plain_item_def timed_item_def Let_def)

text \<open>The half of C1 that the code keeps: an item with an expiry is indexed by \<^verbatim>\<open>Set\<close>.\<close>

lemma Set_timed_is_indexed:
  "Expires v \<Longrightarrow>
   Expires_key (Some k) (snd (Set (Some k) (Some v) db)) = Inr True \<and>
   fmlookup (ExpiringKeys (snd (Set (Some k) (Some v) db))) k = Some (Some v)"
  by (simp add: Set_def Expires_key_def ExpiringKeys_def Let_def)

lemma Set_plain_on_unindexed:
  "\<not> Expires v \<Longrightarrow> fmlookup (expiringKeys db) k = None \<Longrightarrow>
   Expires_key (Some k) (snd (Set (Some k) (Some v) db)) = Inr False"
  by (simp add: Set_def Expires_key_def Let_def)

subsection \<open>The invariant of the two maps\<close>

text \<open>
  C2. Every public operation (\<^verbatim>\<open>Set\<close>, \<^verbatim>\<open>Get\<close>, \<^verbatim>\<open>GetOrExpired\<close>, \<^verbatim>\<open>Delete\<close>,
  \<^verbatim>\<open>Exists\<close>, \<^verbatim>\<open>Expires\<close>, \<^verbatim>\<open>Keys\<close>, \<^verbatim>\<open>ExpiringKeys\<close>, \<^verbatim>\<open>IsEmpty\<close>,
  \<^verbatim>\<open>IsEmptyExpire\<close>), with any arguments and whether it returns or panics, takes a
  database in which the keys of \<^verbatim>\<open>expiringKeys\<close> are keys of \<^verbatim>\<open>keys\<close> to another such
  database; so the inclusion holds in every state reached from a fresh database by any
  sequence of these operations.
\<close>

theorem expiringKeys_subset_keys_invariant:
  "(\<forall>op db. subset_inv db \<longrightarrow> subset_inv (exec op (db :: 'v RedisDb))) \<and>
   subset_inv (run ops (NewRedisDb ident r :: 'v RedisDb)) \<and>
   fmdom (ExpiringKeys (run ops (NewRedisDb ident r :: 'v RedisDb)))
     |\<subseteq>| fmdom (Keys (run ops (NewRedisDb ident r)))"
proof -
  have "subset_inv (run ops (NewRedisDb ident r :: 'v RedisDb))"
    by (rule subset_inv_run) (rule subset_inv_New)
  then show ?thesis
    using subset_inv_exec by (auto simp add: subset_inv_def Keys_def ExpiringKeys_def)
qed

theorem expiringKeys_subset_keys_invariant_witness:
  "subset_inv db_timed \<and>
   subset_inv (exec (OpGetOrExpired 200 (Some ''b'') True) db_timed) \<and>
   fmdom (ExpiringKeys (run [OpSet (Some ''a'') (Some timed_item), OpSet (Some ''a'') (Some plain_item),
                             OpDelete [Some ''a'']] (NewRedisDb 0 0)))
     |\<subseteq>| fmdom (Keys (run [OpSet (Some ''a'') (Some timed_item), OpSet (Some ''a'') (Some plain_item),
                             OpDelete [Some ''a'']] (NewRedisDb 0 0)))"
proof -
  have h: "subset_inv db_timed"
    by (simp add: subset_inv_def db_timed_def)
  show ?thesis
    using h expiringKeys_subset_keys_invariant
      [of "[OpSet (Some ''a'') (Some timed_item), OpSet (Some ''a'') (Some plain_item),
            OpDelete [Some ''a'']]" 0 0]
    by blast
qed

subsection \<open>The expiry checks\<close>

text \<open>
  C7. With \<open>now\<close> the instant the clock shows, \<^verbatim>\<open>Expired(t)\<close> is true exactly when \<open>t\<close> is
  strictly before \<open>now\<close>, so an instant equal to \<open>now\<close> is not expired; and
  \<^verbatim>\<open>ItemExpired(i)\<close> is true exactly when \<^verbatim>\<open>i.Expires()\<close> is true and \<^verbatim>\<open>i.Expiry()\<close> is
  strictly before \<open>now\<close>.
\<close>

theorem Expired_iff_strictly_before:
  "(Expired now t \<longleftrightarrow> t < now) \<and> \<not> Expired now now \<and>
   ItemExpired now (Some i) = Inr (Expires i \<and> Expiry i < now)"
  by (simp add: Expired_def ItemExpired_def)

theorem Expired_iff_strictly_before_witness:
  "Expired 101 100 \<and> \<not> Expired 100 100 \<and> \<not> Expired 99 100 \<and>
   ItemExpired 101 (Some timed_item) = Inr True \<and>
   ItemExpired 100 (Some timed_item) = Inr False \<and>
   ItemExpired 101 (Some plain_item) = Inr False"
  using Expired_iff_strictly_before [of 101 100 timed_item]
        Expired_iff_strictly_before [of 100 100 timed_item]
        Expired_iff_strictly_before [of 99 100 timed_item]
        Expired_iff_strictly_before [of 101 100 plain_item]
  by (simp add: timed_item_def plain_item_def)

subsection \<open>The expiry-aware read\<close>

text \<open>
  C3. Let the key \<open>k\<close> hold the item \<open>v\<close>. When \<open>v\<close> reports an expiry and its timestamp is
  before \<open>now\<close>, \<^verbatim>\<open>GetOrExpired(k, true)\<close> returns nil and afterwards \<^verbatim>\<open>Exists(k)\<close> is
  false, while \<^verbatim>\<open>GetOrExpired(k, false)\<close> returns nil and afterwards \<^verbatim>\<open>Exists(k)\<close> is
  still true. When \<open>v\<close> has no expiry, or a timestamp that is not before \<open>now\<close>,
  \<^verbatim>\<open>GetOrExpired(k, b)\<close> returns \<open>v\<close> for either \<open>b\<close> and leaves the database as it was.
  For a key that is not in the database it returns nil.
\<close>

theorem GetOrExpired_result:
  "(fmlookup (keys db) k = Some (Some v) \<and> Expires v \<and> Expiry v < now \<longrightarrow>
      fst (GetOrExpired now (Some k) True db) = Inr None \<and>
      Exists (Some k) (fst (snd (GetOrExpired now (Some k) True db))) = Inr False \<and>
      fst (GetOrExpired now (Some k) False db) = Inr None \<and>
      Exists (Some k) (fst (snd (GetOrExpired now (Some k) False db))) = Inr True) \<and>
   (fmlookup (keys db) k = Some (Some v) \<and> (\<not> Expires v \<or> now \<le> Expiry v) \<longrightarrow>
      GetOrExpired now (Some k) b db = (Inr (Some v), db, []) \<and>
      Get (Some k) db = Inr (Some v)) \<and>
   (fmlookup (keys db) k = None \<longrightarrow>
      GetOrExpired now (Some k) b db = (Inr None, db, []))"
proof (intro conjI impI)
  assume a: "fmlookup (keys db) k = Some (Some v) \<and> Expires v \<and> Expiry v < now"
  then have look: "fmlookup (keys db) k = Some (Some v)" by simp
  have t: "GetOrExpired now (Some k) True db =
             (Inr None, remove_key k db, [\<lparr>receiver = v, key_arg = k, db_arg = db\<rparr>])"
    using a delete_held [OF look]
    by (simp add: GetOrExpired_def ItemExpired_def Expired_def)
  have f: "GetOrExpired now (Some k) False db = (Inr None, db, [])"
    using a by (simp add: GetOrExpired_def ItemExpired_def Expired_def)
  show "fst (GetOrExpired now (Some k) True db) = Inr None" by (simp add: t)
  show "Exists (Some k) (fst (snd (GetOrExpired now (Some k) True db))) = Inr False"
    by (simp add: t Exists_def exists_def keys_remove_key)
  show "fst (GetOrExpired now (Some k) False db) = Inr None" by (simp add: f)
  show "Exists (Some k) (fst (snd (GetOrExpired now (Some k) False db))) = Inr True"
    using look by (simp add: f Exists_def exists_def)
next
  assume a: "fmlookup (keys db) k = Some (Some v) \<and> (\<not> Expires v \<or> now \<le> Expiry v)"
  then show "GetOrExpired now (Some k) b db = (Inr (Some v), db, [])"
    by (auto simp add: GetOrExpired_def ItemExpired_def Expired_def)
  from a show "Get (Some k) db = Inr (Some v)"
    by (simp add: Get_def get_def)
next
  assume "fmlookup (keys db) k = None"
  then show "GetOrExpired now (Some k) b db = (Inr None, db, [])"
    by (simp add: GetOrExpired_def)
qed

theorem GetOrExpired_result_witness:
  "fmlookup (keys db_timed) ''b'' = Some (Some timed_item) \<and> Expires timed_item \<and>
   Expiry timed_item < 200 \<and> \<not> Expiry timed_item < 50 \<and>
   fmlookup (keys db_timed) ''a'' = None \<and>
   fst (GetOrExpired 200 (Some ''b'') True db_timed) = Inr None \<and>
   Exists (Some ''b'') (fst (snd (GetOrExpired 200 (Some ''b'') True db_timed))) = Inr False \<and>
   fst (GetOrExpired 200 (Some ''b'') False db_timed) = Inr None \<and>
   Exists (Some ''b'') (fst (snd (GetOrExpired 200 (Some ''b'') False db_timed))) = Inr True \<and>
   GetOrExpired 50 (Some ''b'') True db_timed = (Inr (Some timed_item), db_timed, []) \<and>
   GetOrExpired 50 (Some ''a'') True db_timed = (Inr None, db_timed, [])"
proof -
  have h1: "fmlookup (keys db_timed) ''b'' = Some (Some timed_item)"
    by (simp add: db_timed_def)
  have h2: "Expires timed_item" "Expiry timed_item < 200" "\<not> Expiry timed_item < 50"
    by (simp_all add: timed_item_def)
  have h3: "fmlookup (keys db_timed) ''a'' = None"
    by (simp add: db_timed_def)
  show ?thesis
    using h1 h2 h3
      GetOrExpired_result [of db_timed "''b''" timed_item 200 True]
      GetOrExpired_result [of db_timed "''b''" timed_item 50 True]
      GetOrExpired_result [of db_timed "''a''" timed_item 50 True]
    by simp
qed

text \<open>
  C10. \<^verbatim>\<open>GetOrExpired(k, false)\<close> leaves the database as it was and calls no hook, for
  every key pointer (nil too) and every database, whether it returns or panics. For either
  value of the flag, the database after \<^verbatim>\<open>GetOrExpired\<close> is the one before, unless the flag
  is true and \<open>k\<close> holds an item that reports an expiry with a timestamp before \<open>now\<close>:
  then the hook of that item is called once and \<open>k\<close> leaves both maps.
\<close>

theorem GetOrExpired_frame:
  "snd (GetOrExpired now key False db) = (db, []) \<and>
   keys (fst (snd (GetOrExpired now key False db))) = keys db \<and>
   expiringKeys (fst (snd (GetOrExpired now key False db))) = expiringKeys db \<and>
   (snd (GetOrExpired now key b db) = (db, []) \<or>
    (b \<and> (\<exists>k it. key = Some k \<and> fmlookup (keys db) k = Some (Some it) \<and>
        Expires it \<and> Expiry it < now \<and>
        snd (GetOrExpired now key b db) =
          (remove_key k db, [\<lparr>receiver = it, key_arg = k, db_arg = db\<rparr>]))))"
proof -
  have "snd (GetOrExpired now key False db) = (db, [])"
    using GetOrExpired_db_cases [of now key False db] by simp
  then show ?thesis
    using GetOrExpired_db_cases [of now key b db] by simp
qed

theorem GetOrExpired_frame_witness:
  "snd (GetOrExpired 200 (Some ''b'') False db_timed) = (db_timed, []) \<and>
   snd (GetOrExpired 200 None False db_timed) = (db_timed, []) \<and>
   snd (GetOrExpired 200 (Some ''b'') True db_timed) =
     (remove_key ''b'' db_timed,
      [\<lparr>receiver = timed_item, key_arg = ''b'', db_arg = db_timed\<rparr>])"
proof -
  have "snd (GetOrExpired 200 (Some ''b'') True db_timed) =
     (remove_key ''b'' db_timed,
      [\<lparr>receiver = timed_item, key_arg = ''b'', db_arg = db_timed\<rparr>])"
    by (simp add: GetOrExpired_def ItemExpired_def Expired_def delete_def get_def
        remove_key_def db_timed_def timed_item_def)
  then show ?thesis
    using GetOrExpired_frame [of 200 "Some ''b''" db_timed True]
          GetOrExpired_frame [of 200 None db_timed True]
    by simp
qed

subsection \<open>Delete\<close>

text \<open>
  C4 as the claim words it fails when a key is supplied twice. The database holds the one
  key \<^verbatim>\<open>a\<close>; of the two arguments of \<^verbatim>\<open>Delete(a, a)\<close> both existed in the key map before
  the call, and the call returns 1: the second \<^verbatim>\<open>delete\<close> finds the key gone.
\<close>

theorem Delete_repeated_key_counted_once:
  "supplied_existing [Some ''a'', Some ''a''] db_plain = 2 \<and>
   fst (Delete [Some ''a'', Some ''a''] db_plain) = Inr 1"
  by (simp add: supplied_existing_def Exists_def exists_def Delete_def delete_def get_def
      db_plain_def)

text \<open>
  C4, amended. For every list of key pointers, nil pointers and names of keys that are
  not in the database among them, \<^verbatim>\<open>Delete\<close> returns (it never panics), and the number it
  returns is the number of distinct non-nil keys supplied that held an item before the
  call: a key supplied several times is counted once. Read as a signed 64-bit integer the
  result is that number as long as the argument list has fewer than \<open>2 ^ 63\<close> entries,
  which every Go slice has. In a database where no key holds the nil interface, to hold an
  item is to exist in the key map.
\<close>

theorem Delete_counts_distinct_held_keys:
  "fst (Delete ks db) = Inr (word_of_nat (counted ks db)) \<and>
   counted ks db \<le> length ks \<and>
   (length ks < 2 ^ 63 \<longrightarrow>
      (\<exists>n. fst (Delete ks db) = Inr n \<and> sint n = int (counted ks db))) \<and>
   (no_nil_items db \<longrightarrow>
      counted ks db =
        length (remdups (filter (\<lambda>k. Exists (Some k) db = Inr True)
                          (List.map_filter (\<lambda>key. key) ks))))"
proof (intro conjI impI)
  show r: "fst (Delete ks db) = Inr (word_of_nat (counted ks db))"
    by (simp add: Delete_def Delete_loop_count counted_card)
  show le: "counted ks db \<le> length ks" by (rule counted_le_length)
  show "\<exists>n. fst (Delete ks db) = Inr n \<and> sint n = int (counted ks db)"
    if small: "length ks < 2 ^ 63"
  proof -
    have "int (counted ks db) < 2 ^ 63" using le small by simp
    then have "sint (word_of_nat (counted ks db) :: 64 word) = int (counted ks db)"
      by (simp add: signed_of_nat signed_take_bit_int_eq_self)
    with r show ?thesis by blast
  qed
  show "counted ks db =
        length (remdups (filter (\<lambda>k. Exists (Some k) db = Inr True)
                          (List.map_filter (\<lambda>key. key) ks)))"
    if "no_nil_items db"
    using held_iff_Exists [OF that] by (simp add: counted_def)
qed

theorem Delete_counts_distinct_held_keys_witness:
  "length [Some ''a'', None, Some ''zz'', Some ''a''] < (2 :: nat) ^ 63 \<and>
   no_nil_items db_plain \<and>
   counted [Some ''a'', None, Some ''zz'', Some ''a''] db_plain = 1 \<and>
   fst (Delete [Some ''a'', None, Some ''zz'', Some ''a''] db_plain) = Inr 1 \<and>
   (\<exists>n. fst (Delete [Some ''a'', None, Some ''zz'', Some ''a''] db_plain) = Inr n \<and> sint n = 1)"
proof -
  have h1: "length [Some ''a'', None, Some ''zz'', Some ''a''] < (2 :: nat) ^ 63" by simp
  have h2: "no_nil_items db_plain"
    by (simp add: no_nil_items_def db_plain_def)
  have c: "counted [Some ''a'', None, Some ''zz'', Some ''a''] db_plain = 1"
    by (simp add: counted_def held_def db_plain_def List.map_filter_def)
  show ?thesis
    using h1 h2 c
      Delete_counts_distinct_held_keys [of "[Some ''a'', None, Some ''zz'', Some ''a'']" db_plain]
    by simp
qed

text \<open>
  C5. Let the key \<open>k\<close> hold the item \<open>v\<close>. \<^verbatim>\<open>Delete(k)\<close> returns 1 and makes exactly one hook
  call: \<open>v\<close>'s \<^verbatim>\<open>OnDelete\<close>, with \<open>k\<close> and the database as it was before the call, where \<open>k\<close>
  still is in the key map and the expiring-key index is untouched; afterwards \<open>k\<close> is
  in neither map. \<^verbatim>\<open>GetOrExpired(k, true)\<close> on an expired \<open>v\<close> makes the same single call and
  leaves the same database. In a \<^verbatim>\<open>Delete\<close> of several keys, \<open>k\<close> among them (any number of
  times), exactly one of the hook calls is for \<open>k\<close>; it is \<open>v\<close>'s, on this database, made
  while \<open>k\<close> still holds \<open>v\<close> and its index entry is as before; afterwards \<^verbatim>\<open>Exists(k)\<close> and
  \<^verbatim>\<open>Expires(k)\<close> are false.
\<close>

theorem removal_calls_OnDelete_once_before_removing:
  assumes "fmlookup (keys db) k = Some (Some v)"
  shows "Delete [Some k] db =
           (Inr 1, remove_key k db, [\<lparr>receiver = v, key_arg = k, db_arg = db\<rparr>]) \<and>
         Exists (Some k) db = Inr True \<and>
         Exists (Some k) (remove_key k db) = Inr False \<and>
         Expires_key (Some k) (remove_key k db) = Inr False \<and>
         (Expires v \<and> Expiry v < now \<longrightarrow>
           GetOrExpired now (Some k) True db =
             (Inr None, remove_key k db, [\<lparr>receiver = v, key_arg = k, db_arg = db\<rparr>])) \<and>
         (Some k \<in> set ks \<longrightarrow>
           (\<exists>d. filter (\<lambda>c. key_arg c = k) (snd (snd (Delete ks db))) =
                   [\<lparr>receiver = v, key_arg = k, db_arg = d\<rparr>] \<and>
                 db_id d = db_id db \<and>
                 Exists (Some k) d = Inr True \<and>
                 Get (Some k) d = Inr (Some v) \<and>
                 Expires_key (Some k) d = Expires_key (Some k) db) \<and>
           Exists (Some k) (fst (snd (Delete ks db))) = Inr False \<and>
           Expires_key (Some k) (fst (snd (Delete ks db))) = Inr False)"
proof (intro conjI impI)
  have del: "delete (Some k) db =
          (Inr True, remove_key k db, [\<lparr>receiver = v, key_arg = k, db_arg = db\<rparr>])"
    by (rule delete_held) (rule assms)
  show "Delete [Some k] db =
           (Inr 1, remove_key k db, [\<lparr>receiver = v, key_arg = k, db_arg = db\<rparr>])"
    using del by (simp add: Delete_def)
  show "Exists (Some k) db = Inr True"
    using assms by (simp add: Exists_def exists_def)
  show "Exists (Some k) (remove_key k db) = Inr False"
    by (simp add: Exists_def exists_def keys_remove_key)
  show "Expires_key (Some k) (remove_key k db) = Inr False"
    by (simp add: Expires_key_def expiringKeys_remove_key)
  show "GetOrExpired now (Some k) True db =
             (Inr None, remove_key k db, [\<lparr>receiver = v, key_arg = k, db_arg = db\<rparr>])"
    if "Expires v \<and> Expiry v < now"
    using that assms del by (simp add: GetOrExpired_def ItemExpired_def Expired_def)
  have h: "held k db" using assms by (simp add: held_iff)
  show "\<exists>d. filter (\<lambda>c. key_arg c = k) (snd (snd (Delete ks db))) =
                   [\<lparr>receiver = v, key_arg = k, db_arg = d\<rparr>] \<and>
                 db_id d = db_id db \<and>
                 Exists (Some k) d = Inr True \<and>
                 Get (Some k) d = Inr (Some v) \<and>
                 Expires_key (Some k) d = Expires_key (Some k) db"
    if mem: "Some k \<in> set ks"
  proof -
    from Delete_loop_one_call [OF assms mem, of 0] obtain d where
      d: "filter (\<lambda>c. key_arg c = k) (snd (snd (Delete ks db))) =
            [\<lparr>receiver = v, key_arg = k, db_arg = d\<rparr>]"
         "db_id d = db_id db"
         "fmlookup (keys d) k = Some (Some v)"
         "fmlookup (expiringKeys d) k = fmlookup (expiringKeys db) k"
      unfolding Delete_def by blast
    have "Exists (Some k) d = Inr True" "Get (Some k) d = Inr (Some v)"
         "Expires_key (Some k) d = Expires_key (Some k) db"
      using d(3) d(4) by (simp_all add: Exists_def exists_def Get_def get_def Expires_key_def)
    then show ?thesis using d(1) d(2) by blast
  qed
  show "Exists (Some k) (fst (snd (Delete ks db))) = Inr False"
    if mem: "Some k \<in> set ks"
    using Delete_loop_maps [of ks 0 db k] mem h
    by (simp add: Delete_def Exists_def exists_def)
  show "Expires_key (Some k) (fst (snd (Delete ks db))) = Inr False"
    if mem: "Some k \<in> set ks"
    using Delete_loop_maps [of ks 0 db k] mem h
    by (simp add: Delete_def Expires_key_def)
qed

theorem removal_calls_OnDelete_once_before_removing_witness:
  "fmlookup (keys db_timed) ''b'' = Some (Some timed_item) \<and>
   Expires timed_item \<and> Expiry timed_item < 200 \<and>
   Some ''b'' \<in> set [Some ''b'', None, Some ''b''] \<and>
   Delete [Some ''b''] db_timed =
     (Inr 1, remove_key ''b'' db_timed,
      [\<lparr>receiver = timed_item, key_arg = ''b'', db_arg = db_timed\<rparr>]) \<and>
   GetOrExpired 200 (Some ''b'') True db_timed =
     (Inr None, remove_key ''b'' db_timed,
      [\<lparr>receiver = timed_item, key_arg = ''b'', db_arg = db_timed\<rparr>]) \<and>
   Exists (Some ''b'') (fst (snd (Delete [Some ''b'', None, Some ''b''] db_timed))) = Inr False \<and>
   Expires_key (Some ''b'') (fst (snd (Delete [Some ''b'', None, Some ''b''] db_timed))) = Inr False \<and>
   length (filter (\<lambda>c. key_arg c = ''b'')
             (snd (snd (Delete [Some ''b'', None, Some ''b''] db_timed)))) = 1"
proof -
  have h1: "fmlookup (keys db_timed) ''b'' = Some (Some timed_item)"
    by (simp add: db_timed_def)
  have h2: "Expires timed_item \<and> Expiry timed_item < 200"
    by (simp add: timed_item_def)
  have h3: "Some ''b'' \<in> set [Some ''b'', None, Some ''b'']" by simp
  from removal_calls_OnDelete_once_before_removing
         [OF h1, of 200 "[Some ''b'', None, Some ''b'']"] h2 h3
  show ?thesis using h1 by auto
qed

subsection \<open>Lazy expiry\<close>

text \<open>
  C8. Let the key \<open>k\<close> hold the item \<open>v\<close> (for instance one that reports an expiry with a
  timestamp in the past). \<^verbatim>\<open>Get(k)\<close> returns \<open>v\<close>, \<^verbatim>\<open>Exists(k)\<close> is true and \<^verbatim>\<open>Keys()\<close>
  contains \<open>k\<close>: none of them reads the clock. After any sequence of public operations,
  made at any instants, none of which is a \<^verbatim>\<open>Delete\<close> with \<open>k\<close> among its arguments or a
  \<^verbatim>\<open>GetOrExpired(k, true)\<close>, the key is still there: \<^verbatim>\<open>Exists(k)\<close> is true, \<^verbatim>\<open>Keys()\<close>
  contains \<open>k\<close>, and \<^verbatim>\<open>Get(k)\<close> returns what the key map holds at \<open>k\<close>, which is \<open>v\<close> itself
  as long as no \<^verbatim>\<open>Set\<close> on \<open>k\<close> has stored something else there.
\<close>

theorem key_stays_until_removed:
  assumes "fmlookup (keys db) k = Some (Some v)"
    and "\<forall>op \<in> set ops. \<not> removes k op"
  shows "Get (Some k) db = Inr (Some v) \<and>
         Exists (Some k) db = Inr True \<and>
         fmlookup (Keys db) k = Some (Some v) \<and>
         Exists (Some k) (run ops db) = Inr True \<and>
         k |\<in>| fmdom (Keys (run ops db)) \<and>
         (\<exists>i. fmlookup (Keys (run ops db)) k = Some i \<and>
              Get (Some k) (run ops db) = Inr i) \<and>
         ((\<forall>op \<in> set ops. \<not> overwrites k op) \<longrightarrow>
            Get (Some k) (run ops db) = Inr (Some v) \<and>
            fmlookup (Keys (run ops db)) k = Some (Some v))"
proof (intro conjI impI)
  show "Get (Some k) db = Inr (Some v)"
    using assms(1) by (simp add: Get_def get_def)
  show "Exists (Some k) db = Inr True"
    using assms(1) by (simp add: Exists_def exists_def)
  show "fmlookup (Keys db) k = Some (Some v)"
    using assms(1) by (simp add: Keys_def)
  have there: "fmlookup (keys (run ops db)) k \<noteq> None"
    using run_keeps_key [OF assms(2)] assms(1) by simp
  then show "Exists (Some k) (run ops db) = Inr True"
    by (auto simp add: Exists_def exists_def)
  from there show "k |\<in>| fmdom (Keys (run ops db))"
    by (auto simp add: Keys_def intro: fmdomI)
  from there show "\<exists>i. fmlookup (Keys (run ops db)) k = Some i \<and>
              Get (Some k) (run ops db) = Inr i"
    by (auto simp add: Keys_def Get_def get_def)
  assume "\<forall>op \<in> set ops. \<not> overwrites k op"
  with assms(2) have "\<forall>op \<in> set ops. \<not> removes k op \<and> \<not> overwrites k op" by blast
  then have "fmlookup (keys (run ops db)) k = Some (Some v)"
    using run_keeps_item [of ops k db] assms(1) by simp
  then show "Get (Some k) (run ops db) = Inr (Some v)"
    and "fmlookup (Keys (run ops db)) k = Some (Some v)"
    by (simp_all add: Get_def get_def Keys_def)
qed

theorem key_stays_until_removed_witness:
  "fmlookup (keys db_timed) ''b'' = Some (Some timed_item) \<and>
   Expires timed_item \<and> Expiry timed_item < 200 \<and>
   list_all (\<lambda>op. \<not> removes ''b'' op \<and> \<not> overwrites ''b'' op) sample_ops \<and>
   Exists (Some ''b'') (run sample_ops db_timed) = Inr True \<and>
   Get (Some ''b'') (run sample_ops db_timed) = Inr (Some timed_item)"
proof -
  have h1: "fmlookup (keys db_timed) ''b'' = Some (Some timed_item)"
    by (simp add: db_timed_def)
  have h2: "Expires timed_item \<and> Expiry timed_item < 200"
    by (simp add: timed_item_def)
  have h3: "\<forall>op \<in> set sample_ops. \<not> removes ''b'' op"
    by (simp add: sample_ops_def)
  have h4: "\<forall>op \<in> set sample_ops. \<not> overwrites ''b'' op"
    by (simp add: sample_ops_def)
  from key_stays_until_removed [OF h1 h3] h4
  have "Exists (Some ''b'') (run sample_ops db_timed) = Inr True \<and>
        Get (Some ''b'') (run sample_ops db_timed) = Inr (Some timed_item)"
    by blast
  moreover have "list_all (\<lambda>op. \<not> removes ''b'' op \<and> \<not> overwrites ''b'' op) sample_ops"
    using h3 h4 by (simp add: list_all_iff)
  ultimately show ?thesis using h1 h2 by blast
qed

subsection \<open>The registry of databases\<close>

text \<open>
  C9. For every id, \<^verbatim>\<open>Redis.RedisDb(id)\<close> returns a non-nil pointer \<open>p\<close>. If the registry
  has an entry for the id, \<open>p\<close> is that entry and nothing changes. Otherwise \<open>p\<close> is the
  address of a newly allocated database with that id and no keys, and the registry is the
  old one with \<open>p\<close> stored under the id. Either way the registry then maps the id to \<open>p\<close>,
  a second call with the same id returns \<open>p\<close> and changes nothing, and so does a call
  made after any number of lookups of other or the same ids. When every pointer of the
  registry points into the heap, that stays so, \<open>p\<close> does too, and a newly created
  database is none of those registered before.
\<close>

theorem Redis_RedisDb_returns_one_instance:
  "\<exists>p. fst (Redis_RedisDb dbId r) = Some p \<and>
       fmlookup (Redis_RedisDbs (snd (Redis_RedisDb dbId r))) dbId = Some p \<and>
       Redis_RedisDb dbId (snd (Redis_RedisDb dbId r)) = (Some p, snd (Redis_RedisDb dbId r)) \<and>
       fst (Redis_RedisDb dbId (lookups ids (snd (Redis_RedisDb dbId r)))) = Some p \<and>
       (fmlookup (redisDbs r) dbId \<noteq> None \<longrightarrow>
          fmlookup (redisDbs r) dbId = Some p \<and> snd (Redis_RedisDb dbId r) = r) \<and>
       (fmlookup (redisDbs r) dbId = None \<longrightarrow>
          p = length (heap r) \<and>
          heap (snd (Redis_RedisDb dbId r)) = heap r @ [NewRedisDb dbId (this r)] \<and>
          heap (snd (Redis_RedisDb dbId r)) ! p = NewRedisDb dbId (this r) \<and>
          redisDbs (snd (Redis_RedisDb dbId r)) = fmupd dbId p (redisDbs r)) \<and>
       (registry_ok r \<longrightarrow>
          registry_ok (snd (Redis_RedisDb dbId r)) \<and>
          p < length (heap (snd (Redis_RedisDb dbId r))) \<and>
          (fmlookup (redisDbs r) dbId = None \<longrightarrow>
             (\<forall>i. fmlookup (redisDbs r) i \<noteq> Some p)))"
proof -
  let ?r' = "snd (Redis_RedisDb dbId r)"
  obtain p where p: "fst (Redis_RedisDb dbId r) = Some p"
    and entry: "fmlookup (redisDbs ?r') dbId = Some p"
    by (cases "fmlookup (redisDbs r) dbId")
       (auto simp add: Redis_RedisDb_new Redis_RedisDb_existing)
  have again: "Redis_RedisDb dbId ?r' = (Some p, ?r')"
    by (rule Redis_RedisDb_existing) (rule entry)
  have "fmlookup (redisDbs (lookups ids ?r')) dbId = Some p"
    by (rule lookups_keeps_entry) (rule entry)
  then have later: "fst (Redis_RedisDb dbId (lookups ids ?r')) = Some p"
    by (simp add: Redis_RedisDb_existing)
  have old: "fmlookup (redisDbs r) dbId \<noteq> None \<longrightarrow>
          fmlookup (redisDbs r) dbId = Some p \<and> ?r' = r"
    using p by (auto simp add: Redis_RedisDb_existing)
  have new: "fmlookup (redisDbs r) dbId = None \<longrightarrow>
          p = length (heap r) \<and>
          heap ?r' = heap r @ [NewRedisDb dbId (this r)] \<and>
          heap ?r' ! p = NewRedisDb dbId (this r) \<and>
          redisDbs ?r' = fmupd dbId p (redisDbs r)"
    using p by (auto simp add: Redis_RedisDb_new)
  have ok: "registry_ok r \<longrightarrow>
          registry_ok ?r' \<and> p < length (heap ?r') \<and>
          (fmlookup (redisDbs r) dbId = None \<longrightarrow> (\<forall>i. fmlookup (redisDbs r) i \<noteq> Some p))"
  proof (intro impI conjI allI)
    assume r: "registry_ok r"
    then show ok': "registry_ok ?r'" by (rule registry_ok_Redis_RedisDb)
    show "p < length (heap ?r')" using ok' entry by (rule registry_ok_lookup)
    fix i
    assume "fmlookup (redisDbs r) dbId = None"
    then have "p = length (heap r)" using new by simp
    then show "fmlookup (redisDbs r) i \<noteq> Some p"
      using registry_ok_lookup [OF r, of i p] by auto
  qed
  show ?thesis
    using p entry again later old new ok by (simp add: Redis_RedisDbs_def)
qed

theorem Redis_RedisDb_returns_one_instance_witness:
  "fmlookup (redisDbs fresh_redis) 7 = None \<and> registry_ok fresh_redis \<and>
   fst (Redis_RedisDb 7 fresh_redis) = Some 0 \<and>
   fst (Redis_RedisDb 7 (lookups [3, 7, 5] (snd (Redis_RedisDb 7 fresh_redis)))) = Some 0 \<and>
   fmlookup (redisDbs (snd (Redis_RedisDb 7 fresh_redis))) 7 \<noteq> None \<and>
   snd (Redis_RedisDb 7 (snd (Redis_RedisDb 7 fresh_redis))) = snd (Redis_RedisDb 7 fresh_redis) \<and>
   registry_ok (snd (Redis_RedisDb 7 fresh_redis))"
proof -
  have h: "fmlookup (redisDbs fresh_redis) 7 = None"
    by (simp add: fresh_redis_def)
  have l: "length (heap fresh_redis) = 0"
    by (simp add: fresh_redis_def)
  have k: "registry_ok fresh_redis"
    by (simp add: registry_ok_def fresh_redis_def)
  from Redis_RedisDb_returns_one_instance [of 7 fresh_redis "[3, 7, 5]"] h l k
  show ?thesis by (auto simp add: Redis_RedisDbs_def)
qed

end
